theory Spec2Isabelle
  imports Main "HOL-Library.Word"
begin

section \<open>Characters and strings\<close>

text \<open>
  The program works on Python \<open>str\<close> values. A string is modelled as a \<^typ>\<open>string\<close>, each
  \<^typ>\<open>char\<close> standing for one code point in the range U+0000 .. U+00FF, so that \<open>length\<close>
  counts what Python's \<open>len\<close> counts. The character classes below are those of Python 3 on
  that range: \<open>str.isdigit\<close>, the classes \<open>\w\<close> and \<open>\s\<close> of the module \<open>re\<close> on \<open>str\<close>
  patterns, and \<open>str.lower\<close>.
\<close>

definition ord :: "char \<Rightarrow> nat" where
  "ord c = of_char c"

definition isdigit :: "char \<Rightarrow> bool" where
  "isdigit c = (let n = ord c in (48 \<le> n \<and> n \<le> 57) \<or> n = 178 \<or> n = 179 \<or> n = 185)"

definition is_word_char :: "char \<Rightarrow> bool" where
  "is_word_char c =
     (let n = ord c in
        (48 \<le> n \<and> n \<le> 57) \<or> (65 \<le> n \<and> n \<le> 90) \<or> n = 95 \<or> (97 \<le> n \<and> n \<le> 122)
        \<or> n = 170 \<or> n = 178 \<or> n = 179 \<or> n = 181 \<or> n = 185 \<or> n = 186
        \<or> (188 \<le> n \<and> n \<le> 190) \<or> (192 \<le> n \<and> n \<le> 214) \<or> (216 \<le> n \<and> n \<le> 246)
        \<or> 248 \<le> n)"

definition is_space_char :: "char \<Rightarrow> bool" where
  "is_space_char c =
     (let n = ord c in (9 \<le> n \<and> n \<le> 13) \<or> (28 \<le> n \<and> n \<le> 32) \<or> n = 133 \<or> n = 160)"

definition is_ascii_upper :: "char \<Rightarrow> bool" where
  "is_ascii_upper c = (let n = ord c in 65 \<le> n \<and> n \<le> 90)"

definition lower_char :: "char \<Rightarrow> char" where
  "lower_char c =
     (let n = ord c in
        if (65 \<le> n \<and> n \<le> 90) \<or> (192 \<le> n \<and> n \<le> 214) \<or> (216 \<le> n \<and> n \<le> 222)
        then char_of (n + 32) else c)"

definition lower :: "string \<Rightarrow> string" where
  "lower s = map lower_char s"

section \<open>Errors and container access\<close>

text \<open>
  Every exception the modelled code can raise is a value; a function that can raise returns
  \<open>error + 'a\<close>.
\<close>

datatype error = KeyError | IndexError | ValueError | FileNotFoundError | TypeError

text \<open>\<open>xs[i]\<close> on a list, for a non-negative index.\<close>

definition item :: "'a list \<Rightarrow> nat \<Rightarrow> error + 'a" where
  "item xs i = (if i < length xs then Inr (xs ! i) else Inl IndexError)"

text \<open>
  A dictionary literal whose iteration order matters is an association list in the order of
  the literal; \<open>k in d\<close> and \<open>d[k]\<close> are \<open>has_key\<close> and \<open>getitem\<close>.
\<close>

type_synonym catalog = "(string \<times> string list) list"

definition keys :: "catalog \<Rightarrow> string list" where
  "keys d = map fst d"

definition has_key :: "string \<Rightarrow> catalog \<Rightarrow> bool" where
  "has_key k d = (k \<in> set (keys d))"

definition getitem :: "catalog \<Rightarrow> string \<Rightarrow> error + string list" where
  "getitem d k = (case map_of d k of None \<Rightarrow> Inl KeyError | Some v \<Rightarrow> Inr v)"

text \<open>\<open>d[k][0]\<close>\<close>

definition getitem0 :: "catalog \<Rightarrow> string \<Rightarrow> error + string" where
  "getitem0 d k = (case getitem d k of Inl e \<Rightarrow> Inl e | Inr v \<Rightarrow> item v 0)"

section \<open>The allophone catalogs\<close>

definition numbered :: catalog where
  "numbered =
    [(''BB'', [''BB1.wav'', ''BB2.wav'']),
     (''DD'', [''DD1.wav'', ''DD2.wav'']),
     (''DH'', [''DH1.wav'', ''DH2.wav'']),
     (''ER'', [''ER1.wav'', ''ER2.wav'']),
     (''GG'', [''GG2.wav'', ''GG3.wav'']),
     (''HH'', [''HH1.wav'', ''HH2.wav'']),
     (''KK'', [''KK1.wav'', ''KK2.wav'', ''KK3.wav'']),
     (''NN'', [''NN1.wav'', ''NN2.wav'']),
     (''RR'', [''RR1.wav'', ''RR2.wav'']),
     (''TT'', [''TT1.wav'', ''TT2.wav'']),
     (''UW'', [''UW1.wav'', ''UW2.wav'']),
     (''YY'', [''YY1.wav'', ''YY2.wav''])]"

definition unnumbered :: catalog where
  "unnumbered =
    [(''AA'', [''AA.wav'']),
     (''AE'', [''AE.wav'']),
     (''AO'', [''AO.wav'']),
     (''AR'', [''AR.wav'']),
     (''AW'', [''AW.wav'']),
     (''AX'', [''AX.wav'']),
     (''AY'', [''AY.wav'']),
     (''CH'', [''CH.wav'']),
     (''EH'', [''EH.wav'']),
     (''EL'', [''EL.wav'']),
     (''EY'', [''EY.wav'']),
     (''FF'', [''FF.wav'']),
     (''GOT'', [''GOT.wav'']),
     (''IH'', [''IH.wav'']),
     (''IY'', [''IY.wav'']),
     (''JH'', [''JH.wav'']),
     (''LL'', [''LL.wav'']),
     (''MM'', [''MM.wav'']),
     (''NG'', [''NG.wav'']),
     (''OR'', [''OR.wav'']),
     (''OW'', [''OW.wav'']),
     (''OY'', [''OY.wav'']),
     (''PP'', [''PP.wav'']),
     (''SH'', [''SH.wav'']),
     (''SS'', [''SS.wav'']),
     (''TH'', [''TH.wav'']),
     (''UH'', [''UH.wav'']),
     (''VV'', [''VV.wav'']),
     (''WH'', [''WH.wav'']),
     (''WW'', [''WW.wav'']),
     (''XR'', [''XR.wav'']),
     (''YR'', [''YR.wav'']),
     (''ZH'', [''ZH.wav'']),
     (''ZZ'', [''ZZ.wav''])]"

section \<open>The allophone resolver\<close>

text \<open>
  \<open>allophone_contains_digit\<close>: the list of the label and the label without its digits when
  the two differ, the empty list otherwise.
\<close>

definition allophone_contains_digit :: "string \<Rightarrow> string list" where
  "allophone_contains_digit allophone =
     (let digits_removed = filter (\<lambda>char. \<not> isdigit char) allophone
      in if digits_removed \<noteq> allophone then [allophone, digits_removed] else [])"

text \<open>
  One \<open>for\<close> loop of \<open>find_closest_match\<close>, over the keys of the dictionary \<open>d\<close> that are
  still to visit. \<open>Some r\<close> is a \<open>return\<close> (or a raise) from inside the loop, \<open>None\<close> is the
  loop running to its end.
\<close>

fun scan_keys :: "catalog \<Rightarrow> string list \<Rightarrow> string \<Rightarrow> (error + string list) option" where
  "scan_keys d [] input_str = None"
| "scan_keys d (key # rest) input_str =
     (if length input_str = 1 then
        (let double_string = input_str @ input_str
         in if key = double_string then Some (getitem d double_string)
            else scan_keys d rest input_str)
      else if length input_str > 1 then
        (case item input_str 0 of
           Inl e \<Rightarrow> Some (Inl e)
         | Inr a \<Rightarrow>
             (case item key 0 of
                Inl e \<Rightarrow> Some (Inl e)
              | Inr b \<Rightarrow> if a = b then Some (getitem d key) else scan_keys d rest input_str))
      else scan_keys d rest input_str)"

definition find_closest_match :: "string \<Rightarrow> error + string list" where
  "find_closest_match input_str =
     (case scan_keys numbered (keys numbered) input_str of
        Some r \<Rightarrow> r
      | None \<Rightarrow>
          (case scan_keys unnumbered (keys unnumbered) input_str of
             Some r \<Rightarrow> r
           | None \<Rightarrow> Inr []))"

text \<open>The two identical tails of \<open>lookup_allophone\<close> (lines 247-251 and 253-257).\<close>

definition closest_or_empty :: "string \<Rightarrow> error + string" where
  "closest_or_empty allophone =
     (case find_closest_match allophone of
        Inl e \<Rightarrow> Inl e
      | Inr match \<Rightarrow> if match \<noteq> [] then item match 0 else Inr '''')"

definition lookup_allophone :: "string \<Rightarrow> error + string" where
  "lookup_allophone allophone =
     (if allophone = ''SPACE'' then Inr ''SPACE.wav''
      else if allophone = ''PERIOD'' then Inr ''PERIOD.wav''
      else if allophone = ''COMMA'' then Inr ''COMMA.wav''
      else if has_key allophone numbered then getitem0 numbered allophone
      else if has_key allophone unnumbered then getitem0 unnumbered allophone
      else
        (let allophone_has_digit = allophone_contains_digit allophone
         in if allophone_has_digit \<noteq> [] then
              (case item allophone_has_digit 1 of
                 Inl e \<Rightarrow> Inl e
               | Inr modified_allophone \<Rightarrow>
                   if has_key modified_allophone numbered
                   then getitem0 numbered modified_allophone
                   else if has_key modified_allophone unnumbered
                   then getitem0 unnumbered modified_allophone
                   else closest_or_empty allophone)
            else closest_or_empty allophone))"

section \<open>Tokenizer and pronunciation lookup\<close>

text \<open>
  \<open>parse_input\<close> is \<open>re.findall(r'\w+|\s|[^\w\s]', input_text)\<close>: at each position the
  alternatives are tried from left to right. A word character starts the greedy run \<open>\w+\<close>;
  otherwise a whitespace character is matched by \<open>\s\<close>; otherwise the character is neither
  and is matched by \<open>[^\w\s]\<close>. No position is left without a match.
\<close>

function parse_input :: "string \<Rightarrow> string list" where
  "parse_input [] = []"
| "parse_input (c # cs) =
     (if is_word_char c
      then (c # takeWhile is_word_char cs) # parse_input (dropWhile is_word_char cs)
      else if is_space_char c then [c] # parse_input cs
      else [c] # parse_input cs)"
  by pat_completeness auto
termination
  by (relation "measure length") (auto simp: length_dropWhile_le less_Suc_eq_le)

text \<open>
  \<open>re.findall(r'\w+', s)\<close>: the maximal runs of word characters, from left to right; a
  character that is not a word character is skipped.
\<close>

function findall_words :: "string \<Rightarrow> string list" where
  "findall_words [] = []"
| "findall_words (c # cs) =
     (if is_word_char c
      then (c # takeWhile is_word_char cs) # findall_words (dropWhile is_word_char cs)
      else findall_words cs)"
  by pat_completeness auto
termination
  by (relation "measure length") (auto simp: length_dropWhile_le less_Suc_eq_le)

text \<open>
  The pronunciation dictionary \<open>cmu_dict\<close> is an external resource: a parameter of the model,
  mapping a word to the list of its pronunciations, each a list of labels.
  \<open>cmu_dict.get(word, [])\<close> is \<open>dict_get\<close>.
\<close>

type_synonym cmudict = "string \<rightharpoonup> string list list"

type_synonym allophone_dict = "string \<rightharpoonup> string list"

definition dict_get :: "cmudict \<Rightarrow> string \<Rightarrow> string list list" where
  "dict_get cmu_dict word = (case cmu_dict word of None \<Rightarrow> [] | Some ps \<Rightarrow> ps)"

text \<open>
  The loop of \<open>text_to_allophones\<close>. \<open>if pronunciations:\<close> holds exactly for a non-empty
  list, whose element 0 is then its head.
\<close>

fun add_words :: "cmudict \<Rightarrow> string list \<Rightarrow> allophone_dict \<Rightarrow> allophone_dict" where
  "add_words cmu_dict [] allophones_dict = allophones_dict"
| "add_words cmu_dict (word # rest) allophones_dict =
     (case dict_get cmu_dict word of
        pronunciation # _ \<Rightarrow> add_words cmu_dict rest (allophones_dict(word \<mapsto> pronunciation))
      | [] \<Rightarrow> add_words cmu_dict rest (allophones_dict(word \<mapsto> [word])))"

definition text_to_allophones :: "cmudict \<Rightarrow> string \<Rightarrow> allophone_dict" where
  "text_to_allophones cmu_dict text = add_words cmu_dict (findall_words (lower text)) Map.empty"

section \<open>Token-to-label expander and punctuation filter\<close>

text \<open>The loop of \<open>process_punctuation\<close>, with the list \<open>c\<close> built so far.\<close>

fun process_loop :: "string list \<Rightarrow> allophone_dict \<Rightarrow> string list \<Rightarrow> string list" where
  "process_loop [] allophone_dict c = c"
| "process_loop (word # rest) allophone_dict c =
     (case allophone_dict word of
        Some labels \<Rightarrow> process_loop rest allophone_dict (c @ labels)
      | None \<Rightarrow>
          if word = '','' then process_loop rest allophone_dict (c @ [''COMMA''])
          else if word = '' '' then process_loop rest allophone_dict (c @ [''SPACE''])
          else if word = ''.'' then process_loop rest allophone_dict (c @ [''PERIOD''])
          else process_loop rest allophone_dict c)"

definition process_punctuation :: "string list \<Rightarrow> allophone_dict \<Rightarrow> string list" where
  "process_punctuation parsed_input allophone_dict = process_loop parsed_input allophone_dict []"

text \<open>
  The three module-level flags are a record, so that a statement can name their values;
  \<open>source_flags\<close> holds the values the source assigns.
\<close>

record flags =
  IGNORE_SPACES :: bool
  IGNORE_PERIODS :: bool
  IGNORE_COMMAS :: bool

definition source_flags :: flags where
  "source_flags = \<lparr>IGNORE_SPACES = True, IGNORE_PERIODS = True, IGNORE_COMMAS = True\<rparr>"

definition prune_punctuation :: "flags \<Rightarrow> string list \<Rightarrow> string list" where
  "prune_punctuation fl allophones =
     (let result = allophones;
          result = (if IGNORE_SPACES fl then filter (\<lambda>item. item \<noteq> ''SPACE.wav'') result
                    else result);
          result = (if IGNORE_PERIODS fl then filter (\<lambda>item. item \<noteq> ''PERIOD.wav'') result
                    else result);
          result = (if IGNORE_COMMAS fl then filter (\<lambda>item. item \<noteq> ''COMMA.wav'') result
                    else result)
      in result)"

section \<open>Waveform assembler\<close>

text \<open>
  The files the program touches are explicit state: the directory of fragment files, read
  by \<open>wavfile.read\<close> (a sample rate, as stored in the 32-bit header field, and the samples),
  the output file, and the lines \<open>write_wav\<close> prints, one per fragment it starts to read.
  Fragments are mono with samples that fit 16 bits, which the conversion to \<open>np.int16\<close>
  before writing leaves as they are.
\<close>

type_synonym sample = "16 word"

type_synonym rate = "32 word"

datatype outfile = Wav rate "sample list" | Truncated

record world =
  fragments :: "string \<rightharpoonup> rate \<times> sample list"
  output_file :: "outfile option"
  printed :: "string list"

text \<open>
  The loop of \<open>write_wav\<close> with its two variables. A fragment file that does not exist makes
  \<open>wavfile.read\<close> raise.
\<close>

fun read_loop ::
  "string list \<Rightarrow> sample list \<Rightarrow> rate option \<Rightarrow> world
     \<Rightarrow> (error + sample list \<times> rate option) \<times> world" where
  "read_loop [] combined_audio sample_rate w = (Inr (combined_audio, sample_rate), w)"
| "read_loop (wav_file # rest) combined_audio sample_rate w =
     (let w1 = w\<lparr>printed := printed w @ [wav_file]\<rparr>
      in case fragments w1 wav_file of
           None \<Rightarrow> (Inl FileNotFoundError, w1)
         | Some (current_sample_rate, audio_data) \<Rightarrow>
             (case sample_rate of
                None \<Rightarrow>
                  read_loop rest (combined_audio @ audio_data) (Some current_sample_rate) w1
              | Some r \<Rightarrow>
                  if r \<noteq> current_sample_rate then (Inl ValueError, w1)
                  else read_loop rest (combined_audio @ audio_data) sample_rate w1))"

text \<open>
  \<open>wavfile.write\<close> opens the output file for writing and then builds the header from the
  rate. With no rate (no fragment was read) building the header raises, and the opened file
  stays empty.
\<close>

definition wavfile_write :: "rate option \<Rightarrow> sample list \<Rightarrow> world \<Rightarrow> (error + unit) \<times> world" where
  "wavfile_write sample_rate audio w =
     (case sample_rate of
        None \<Rightarrow> (Inl TypeError, w\<lparr>output_file := Some Truncated\<rparr>)
      | Some r \<Rightarrow> (Inr (), w\<lparr>output_file := Some (Wav r audio)\<rparr>))"

definition OUTPUT_FILE :: string where
  "OUTPUT_FILE = ''output.wav''"

definition write_wav :: "string list \<Rightarrow> world \<Rightarrow> (error + string) \<times> world" where
  "write_wav wav_files w =
     (case read_loop wav_files [] None w of
        (Inl e, w1) \<Rightarrow> (Inl e, w1)
      | (Inr (combined_audio, sample_rate), w1) \<Rightarrow>
          (case wavfile_write sample_rate combined_audio w1 of
             (Inl e, w2) \<Rightarrow> (Inl e, w2)
           | (Inr _, w2) \<Rightarrow> (Inr OUTPUT_FILE, w2)))"

section \<open>The pipeline\<close>

text \<open>The loop of \<open>main\<close> that resolves each label, with the list \<open>result\<close> built so far.\<close>

fun resolve_loop :: "string list \<Rightarrow> string list \<Rightarrow> error + string list" where
  "resolve_loop [] result = Inr result"
| "resolve_loop (article # rest) result =
     (case lookup_allophone article of
        Inl e \<Rightarrow> Inl e
      | Inr wav_filename \<Rightarrow>
          if wav_filename \<noteq> '''' then resolve_loop rest (result @ [wav_filename])
          else resolve_loop rest result)"

text \<open>
  \<open>main\<close> up to the call of \<open>write_wav\<close>: the fragment sequence it hands to the assembler.
\<close>

definition main_fragments :: "cmudict \<Rightarrow> flags \<Rightarrow> string \<Rightarrow> error + string list" where
  "main_fragments cmu_dict fl input_string =
     (let parsed_input = parse_input input_string;
          allophone_dict = text_to_allophones cmu_dict input_string;
          processed_input = process_punctuation parsed_input allophone_dict
      in case resolve_loop processed_input [] of
           Inl e \<Rightarrow> Inl e
         | Inr result \<Rightarrow>
             if IGNORE_SPACES fl \<or> IGNORE_PERIODS fl \<or> IGNORE_COMMAS fl
             then Inr (prune_punctuation fl result)
             else Inr result)"

text \<open>
  \<open>main\<close> on the line read from the prompt. The result is the file name \<open>write_wav\<close>
  returned; the report of four lines that \<open>main\<close> prints after it is not part of the model.
\<close>

definition main :: "cmudict \<Rightarrow> flags \<Rightarrow> string \<Rightarrow> world \<Rightarrow> (error + string) \<times> world" where
  "main cmu_dict fl input_string w =
     (case main_fragments cmu_dict fl input_string of
        Inl e \<Rightarrow> (Inl e, w)
      | Inr result \<Rightarrow> write_wav result w)"

section \<open>Notions of the specification\<close>

text \<open>
  The matching rule of the closest-match fallback as the specification words it: an input of
  one character matches a key when the character doubled is the key; a longer input matches
  a key when the two begin with the same character. The empty input matches no key.
\<close>

definition key_matches :: "string \<Rightarrow> string \<Rightarrow> bool" where
  "key_matches input_str key =
     (if length input_str = 1 then input_str @ input_str = key
      else length input_str > 1 \<and> take 1 input_str = take 1 key)"

text \<open>
  The contract of the expander for one token, clause by clause: a looked-up word gives its
  label sequence, a space, a period and a comma give their sentinel labels, and any other
  token gives nothing.
\<close>

definition expands_to :: "allophone_dict \<Rightarrow> string \<Rightarrow> string list \<Rightarrow> bool" where
  "expands_to d token labels =
     ((case d token of Some seq \<Rightarrow> labels = seq | None \<Rightarrow> True) \<and>
      (token = '' '' \<longrightarrow> labels = [''SPACE'']) \<and>
      (token = ''.'' \<longrightarrow> labels = [''PERIOD'']) \<and>
      (token = '','' \<longrightarrow> labels = [''COMMA'']) \<and>
      (d token = None \<and> token \<noteq> '' '' \<and> token \<noteq> ''.'' \<and> token \<noteq> '','' \<longrightarrow> labels = []))"

text \<open>The sample rate of a fragment file, when the file can be read.\<close>

definition sample_rate_of :: "world \<Rightarrow> string \<Rightarrow> rate option" where
  "sample_rate_of w wav_file = map_option fst (fragments w wav_file)"

section \<open>Facts about the catalogs\<close>

lemma item0_Cons: "item (x # xs) 0 = Inr x"
  by (simp add: item_def)

lemma numbered_entries:
  "\<forall>k \<in> set (keys numbered). \<exists>f rest. getitem numbered k = Inr (f # rest)"
  by (simp add: keys_def numbered_def getitem_def)

lemma unnumbered_entries:
  "\<forall>k \<in> set (keys unnumbered). \<exists>f. getitem unnumbered k = Inr [f]"
  by (simp add: keys_def unnumbered_def getitem_def)

lemma sentinels_not_numbered:
  "\<not> has_key ''SPACE'' numbered" "\<not> has_key ''PERIOD'' numbered" "\<not> has_key ''COMMA'' numbered"
  by (simp_all add: has_key_def keys_def numbered_def)

lemma sentinels_not_unnumbered:
  "\<not> has_key ''SPACE'' unnumbered" "\<not> has_key ''PERIOD'' unnumbered"
  "\<not> has_key ''COMMA'' unnumbered"
  by (simp_all add: has_key_def keys_def unnumbered_def)

section \<open>Exact matches\<close>

lemma lookup_numbered:
  assumes "has_key label numbered"
  shows "lookup_allophone label = getitem0 numbered label"
proof -
  from assms sentinels_not_numbered
  have "label \<noteq> ''SPACE''" "label \<noteq> ''PERIOD''" "label \<noteq> ''COMMA''" by auto
  with assms show ?thesis by (simp add: lookup_allophone_def)
qed

lemma lookup_unnumbered:
  assumes "has_key label unnumbered" "\<not> has_key label numbered"
  shows "lookup_allophone label = getitem0 unnumbered label"
proof -
  from assms sentinels_not_unnumbered
  have "label \<noteq> ''SPACE''" "label \<noteq> ''PERIOD''" "label \<noteq> ''COMMA''" by auto
  with assms show ?thesis by (simp add: lookup_allophone_def)
qed

text \<open>
  Claim C1. A label that is a key of the multi-variant catalog \<open>numbered\<close> resolves to the
  first fragment identifier listed for it. A label that is a key of the single-variant
  catalog \<open>unnumbered\<close> and not of \<open>numbered\<close> resolves to the only fragment identifier of its
  entry. The multi-variant catalog is the one consulted first.
\<close>

theorem exact_key_resolves:
  "(has_key label numbered \<longrightarrow>
      (\<exists>f rest. getitem numbered label = Inr (f # rest) \<and> lookup_allophone label = Inr f)) \<and>
   (has_key label unnumbered \<and> \<not> has_key label numbered \<longrightarrow>
      (\<exists>f. getitem unnumbered label = Inr [f] \<and> lookup_allophone label = Inr f))"
proof (intro conjI impI)
  assume h: "has_key label numbered"
  then obtain f rest where e: "getitem numbered label = Inr (f # rest)"
    using numbered_entries by (auto simp: has_key_def)
  with h show "\<exists>f rest. getitem numbered label = Inr (f # rest) \<and> lookup_allophone label = Inr f"
    by (simp add: lookup_numbered getitem0_def item0_Cons)
next
  assume h: "has_key label unnumbered \<and> \<not> has_key label numbered"
  then obtain f where e: "getitem unnumbered label = Inr [f]"
    using unnumbered_entries by (auto simp: has_key_def)
  with h show "\<exists>f. getitem unnumbered label = Inr [f] \<and> lookup_allophone label = Inr f"
    by (simp add: lookup_unnumbered getitem0_def item0_Cons)
qed

theorem exact_key_resolves_witness:
  "has_key ''KK'' numbered \<and> lookup_allophone ''KK'' = Inr ''KK1.wav'' \<and>
   has_key ''AY'' unnumbered \<and> \<not> has_key ''AY'' numbered \<and>
   lookup_allophone ''AY'' = Inr ''AY.wav''"
proof -
  have k: "has_key ''KK'' numbered"
    by (simp add: has_key_def keys_def numbered_def)
  have a: "has_key ''AY'' unnumbered" "\<not> has_key ''AY'' numbered"
    by (simp_all add: has_key_def keys_def numbered_def unnumbered_def)
  have gk: "getitem numbered ''KK'' = Inr [''KK1.wav'', ''KK2.wav'', ''KK3.wav'']"
    by (simp add: getitem_def numbered_def)
  have ga: "getitem unnumbered ''AY'' = Inr [''AY.wav'']"
    by (simp add: getitem_def unnumbered_def)
  from exact_key_resolves [of "''KK''"] k gk
  have 1: "lookup_allophone ''KK'' = Inr ''KK1.wav''" by auto
  from exact_key_resolves [of "''AY''"] a ga
  have 2: "lookup_allophone ''AY'' = Inr ''AY.wav''" by auto
  from k a 1 2 show ?thesis by simp
qed

section \<open>The closest-match fallback\<close>

lemma scan_keys_find:
  assumes "[] \<notin> set ks"
  shows "scan_keys d ks input_str = map_option (getitem d) (find (key_matches input_str) ks)"
  using assms
proof (induction ks)
  case Nil
  show ?case by simp
next
  case (Cons key rest)
  then have IH: "scan_keys d rest input_str
      = map_option (getitem d) (find (key_matches input_str) rest)"
    and ne: "key \<noteq> []" by auto
  from ne obtain b bs where key: "key = b # bs" by (cases key) auto
  show ?case
  proof (cases input_str)
    case Nil
    then have "\<not> key_matches input_str key" by (simp add: key_matches_def)
    with Nil IH show ?thesis by simp
  next
    case (Cons a as)
    show ?thesis
    proof (cases as)
      case Nil
      with Cons have "key_matches input_str key \<longleftrightarrow> key = input_str @ input_str"
        by (auto simp: key_matches_def)
      with Nil Cons IH show ?thesis by simp
    next
      case (Cons a' as')
      with \<open>input_str = a # as\<close> key have "key_matches input_str key \<longleftrightarrow> a = b"
        by (simp add: key_matches_def)
      with Cons \<open>input_str = a # as\<close> key IH show ?thesis
        by (simp add: item_def)
    qed
  qed
qed

lemma nonempty_keys: "[] \<notin> set (keys numbered)" "[] \<notin> set (keys unnumbered)"
  by (simp_all add: keys_def numbered_def unnumbered_def)

lemma find_in_set: "find P xs = Some x \<Longrightarrow> x \<in> set xs"
  by (induction xs) (auto split: if_splits)

lemma lookup_fallback:
  assumes "label \<noteq> ''SPACE''" "label \<noteq> ''PERIOD''" "label \<noteq> ''COMMA''"
    and "\<not> has_key label numbered" "\<not> has_key label unnumbered"
    and "\<not> has_key (filter (\<lambda>c. \<not> isdigit c) label) numbered"
    and "\<not> has_key (filter (\<lambda>c. \<not> isdigit c) label) unnumbered"
  shows "lookup_allophone label = closest_or_empty label"
  using assms by (simp add: lookup_allophone_def allophone_contains_digit_def item_def Let_def)

lemma closest_or_empty_find:
  "closest_or_empty label =
     (case find (key_matches label) (keys numbered) of
        Some k \<Rightarrow> getitem0 numbered k
      | None \<Rightarrow>
          (case find (key_matches label) (keys unnumbered) of
             Some k \<Rightarrow> getitem0 unnumbered k
           | None \<Rightarrow> Inr ''''))"
proof (cases "find (key_matches label) (keys numbered)")
  case None
  show ?thesis
  proof (cases "find (key_matches label) (keys unnumbered)")
    case None
    with \<open>find (key_matches label) (keys numbered) = None\<close> show ?thesis
      by (simp add: closest_or_empty_def find_closest_match_def scan_keys_find nonempty_keys)
  next
    case (Some k)
    then have "k \<in> set (keys unnumbered)" by (rule find_in_set)
    then obtain f where "getitem unnumbered k = Inr [f]" using unnumbered_entries by auto
    with Some \<open>find (key_matches label) (keys numbered) = None\<close> show ?thesis
      by (simp add: closest_or_empty_def find_closest_match_def scan_keys_find nonempty_keys
          getitem0_def)
  qed
next
  case (Some k)
  then have "k \<in> set (keys numbered)" by (rule find_in_set)
  then obtain f rest where "getitem numbered k = Inr (f # rest)" using numbered_entries by blast
  with Some show ?thesis
    by (simp add: closest_or_empty_def find_closest_match_def scan_keys_find nonempty_keys
        getitem0_def)
qed


section \<open>Labels with digits\<close>

lemma strip_changes: "\<exists>c \<in> set label. isdigit c \<Longrightarrow> filter (\<lambda>c. \<not> isdigit c) label \<noteq> label"
  by (auto simp: filter_id_conv)

lemma lookup_stripped:
  assumes "label \<noteq> ''SPACE''" "label \<noteq> ''PERIOD''" "label \<noteq> ''COMMA''"
    and "\<not> has_key label numbered" "\<not> has_key label unnumbered"
    and "\<exists>c \<in> set label. isdigit c"
  shows "lookup_allophone label =
     (let modified_allophone = filter (\<lambda>c. \<not> isdigit c) label
      in if has_key modified_allophone numbered then getitem0 numbered modified_allophone
         else if has_key modified_allophone unnumbered then getitem0 unnumbered modified_allophone
         else closest_or_empty label)"
  using assms strip_changes [of label]
  by (simp add: lookup_allophone_def allophone_contains_digit_def item_def Let_def)

text \<open>
  Claim C2. Take a label that is none of the three sentinels and no key of either catalog,
  and that contains a digit. The resolver removes all its digits. If the stripped label is a
  key of \<open>numbered\<close>, the result is the first fragment identifier of that entry; otherwise,
  if it is a key of \<open>unnumbered\<close>, the result is that entry's identifier.
\<close>

theorem stripped_label_resolves:
  fixes label :: string
  defines "stripped \<equiv> filter (\<lambda>c. \<not> isdigit c) label"
  assumes "label \<noteq> ''SPACE''" "label \<noteq> ''PERIOD''" "label \<noteq> ''COMMA''"
    and "\<not> has_key label numbered" "\<not> has_key label unnumbered"
    and "\<exists>c \<in> set label. isdigit c"
  shows "(has_key stripped numbered \<longrightarrow>
            (\<exists>f rest. getitem numbered stripped = Inr (f # rest) \<and> lookup_allophone label = Inr f)) \<and>
         (\<not> has_key stripped numbered \<and> has_key stripped unnumbered \<longrightarrow>
            (\<exists>f. getitem unnumbered stripped = Inr [f] \<and> lookup_allophone label = Inr f))"
proof (intro conjI impI)
  assume h: "has_key stripped numbered"
  then obtain f rest where "getitem numbered stripped = Inr (f # rest)"
    using numbered_entries by (auto simp: has_key_def)
  moreover from h assms have "lookup_allophone label = getitem0 numbered stripped"
    by (simp add: lookup_stripped)
  ultimately show "\<exists>f rest. getitem numbered stripped = Inr (f # rest) \<and> lookup_allophone label = Inr f"
    by (simp add: getitem0_def item0_Cons)
next
  assume h: "\<not> has_key stripped numbered \<and> has_key stripped unnumbered"
  then obtain f where "getitem unnumbered stripped = Inr [f]"
    using unnumbered_entries by (auto simp: has_key_def)
  moreover from h assms have "lookup_allophone label = getitem0 unnumbered stripped"
    by (simp add: lookup_stripped)
  ultimately show "\<exists>f. getitem unnumbered stripped = Inr [f] \<and> lookup_allophone label = Inr f"
    by (simp add: getitem0_def item0_Cons)
qed

theorem stripped_label_resolves_witness:
  "\<not> has_key ''ER0'' numbered \<and> \<not> has_key ''ER0'' unnumbered \<and> (\<exists>c. c \<in> set ''ER0'' \<and> isdigit c) \<and>
   has_key ''ER'' numbered \<and> lookup_allophone ''ER0'' = Inr ''ER1.wav'' \<and>
   \<not> has_key ''AY1'' numbered \<and> \<not> has_key ''AY1'' unnumbered \<and> (\<exists>c. c \<in> set ''AY1'' \<and> isdigit c) \<and>
   \<not> has_key ''AY'' numbered \<and> has_key ''AY'' unnumbered \<and>
   lookup_allophone ''AY1'' = Inr ''AY.wav''"
proof -
  have e: "\<not> has_key ''ER0'' numbered" "\<not> has_key ''ER0'' unnumbered"
    "has_key ''ER'' numbered"
    by (simp_all add: has_key_def keys_def numbered_def unnumbered_def)
  have a: "\<not> has_key ''AY1'' numbered" "\<not> has_key ''AY1'' unnumbered"
    "\<not> has_key ''AY'' numbered" "has_key ''AY'' unnumbered"
    by (simp_all add: has_key_def keys_def numbered_def unnumbered_def)
  have d: "\<exists>c \<in> set ''ER0''. isdigit c" "\<exists>c \<in> set ''AY1''. isdigit c"
    by (simp_all add: isdigit_def ord_def)
  have s: "filter (\<lambda>c. \<not> isdigit c) ''ER0'' = ''ER''" "filter (\<lambda>c. \<not> isdigit c) ''AY1'' = ''AY''"
    by (simp_all add: isdigit_def ord_def)
  have g: "getitem numbered ''ER'' = Inr [''ER1.wav'', ''ER2.wav'']"
    "getitem unnumbered ''AY'' = Inr [''AY.wav'']"
    by (simp_all add: getitem_def numbered_def unnumbered_def)
  from stripped_label_resolves [of "''ER0''"] e d s g
  have 1: "lookup_allophone ''ER0'' = Inr ''ER1.wav''" by simp
  from stripped_label_resolves [of "''AY1''"] a d s g
  have 2: "lookup_allophone ''AY1'' = Inr ''AY.wav''" by simp
  from e a d 1 2 show ?thesis by blast
qed

text \<open>
  Claim C3. A label reaches the closest-match fallback when it is no sentinel and neither it
  nor its digit-free form is a key of a catalog; the fallback works on the label itself, not
  on the stripped form. The keys of \<open>numbered\<close> are scanned in declared order, then those
  of \<open>unnumbered\<close>; the first key that matches by \<open>key_matches\<close> decides, and the result is
  the first fragment identifier of its entry. With no matching key the result is the empty
  string.
\<close>

theorem closest_match_fallback:
  assumes "label \<noteq> ''SPACE''" "label \<noteq> ''PERIOD''" "label \<noteq> ''COMMA''"
    and "\<not> has_key label numbered" "\<not> has_key label unnumbered"
    and "\<not> has_key (filter (\<lambda>c. \<not> isdigit c) label) numbered"
    and "\<not> has_key (filter (\<lambda>c. \<not> isdigit c) label) unnumbered"
  shows "(case find (key_matches label) (keys numbered) of
            Some k \<Rightarrow>
              \<exists>f rest. getitem numbered k = Inr (f # rest) \<and> lookup_allophone label = Inr f
          | None \<Rightarrow>
              (case find (key_matches label) (keys unnumbered) of
                 Some k \<Rightarrow>
                   \<exists>f rest. getitem unnumbered k = Inr (f # rest) \<and> lookup_allophone label = Inr f
               | None \<Rightarrow> lookup_allophone label = Inr ''''))"
proof -
  have l: "lookup_allophone label = closest_or_empty label"
    using assms by (rule lookup_fallback)
  show ?thesis
  proof (cases "find (key_matches label) (keys numbered)")
    case (Some k)
    then have "k \<in> set (keys numbered)" by (rule find_in_set)
    then obtain f rest where "getitem numbered k = Inr (f # rest)"
      using numbered_entries by blast
    with Some l show ?thesis
      by (simp add: closest_or_empty_find getitem0_def item0_Cons)
  next
    case None
    show ?thesis
    proof (cases "find (key_matches label) (keys unnumbered)")
      case (Some k)
      then have "k \<in> set (keys unnumbered)" by (rule find_in_set)
      then obtain f where "getitem unnumbered k = Inr [f]"
        using unnumbered_entries by blast
      with Some None l show ?thesis
        by (simp add: closest_or_empty_find getitem0_def item0_Cons)
    next
      case n: None
      with None l show ?thesis by (simp add: closest_or_empty_find)
    qed
  qed
qed


theorem closest_match_fallback_witness:
  "\<not> has_key ''D'' numbered \<and> \<not> has_key ''D'' unnumbered \<and>
   find (key_matches ''D'') (keys numbered) = Some ''DD'' \<and>
   lookup_allophone ''D'' = Inr ''DD1.wav'' \<and>
   \<not> has_key ''AH0'' numbered \<and> \<not> has_key ''AH0'' unnumbered \<and>
   \<not> has_key ''AH'' numbered \<and> \<not> has_key ''AH'' unnumbered \<and>
   find (key_matches ''AH0'') (keys numbered) = None \<and>
   find (key_matches ''AH0'') (keys unnumbered) = Some ''AA'' \<and>
   lookup_allophone ''AH0'' = Inr ''AA.wav'' \<and>
   find (key_matches ''xyzzy'') (keys numbered) = None \<and>
   find (key_matches ''xyzzy'') (keys unnumbered) = None \<and>
   lookup_allophone ''xyzzy'' = Inr ''''"
proof -
  have d: "\<not> has_key ''D'' numbered" "\<not> has_key ''D'' unnumbered"
    "filter (\<lambda>c. \<not> isdigit c) ''D'' = ''D''"
    by (simp_all add: has_key_def keys_def numbered_def unnumbered_def isdigit_def ord_def)
  have fd: "find (key_matches ''D'') (keys numbered) = Some ''DD''"
    by (simp add: key_matches_def keys_def numbered_def)
  have gd: "getitem numbered ''DD'' = Inr [''DD1.wav'', ''DD2.wav'']"
    by (simp add: getitem_def numbered_def)
  from closest_match_fallback [of "''D''"] d fd gd
  have 1: "lookup_allophone ''D'' = Inr ''DD1.wav''" by simp
  have a: "\<not> has_key ''AH0'' numbered" "\<not> has_key ''AH0'' unnumbered"
    "\<not> has_key ''AH'' numbered" "\<not> has_key ''AH'' unnumbered"
    "filter (\<lambda>c. \<not> isdigit c) ''AH0'' = ''AH''"
    by (simp_all add: has_key_def keys_def numbered_def unnumbered_def isdigit_def ord_def)
  have fa: "find (key_matches ''AH0'') (keys numbered) = None"
    "find (key_matches ''AH0'') (keys unnumbered) = Some ''AA''"
    by (simp_all add: key_matches_def keys_def numbered_def unnumbered_def)
  have ga: "getitem unnumbered ''AA'' = Inr [''AA.wav'']"
    by (simp add: getitem_def unnumbered_def)
  from closest_match_fallback [of "''AH0''"] a fa ga
  have 2: "lookup_allophone ''AH0'' = Inr ''AA.wav''" by simp
  have x: "\<not> has_key ''xyzzy'' numbered" "\<not> has_key ''xyzzy'' unnumbered"
    "filter (\<lambda>c. \<not> isdigit c) ''xyzzy'' = ''xyzzy''"
    by (simp_all add: has_key_def keys_def numbered_def unnumbered_def isdigit_def ord_def)
  have fx: "find (key_matches ''xyzzy'') (keys numbered) = None"
    "find (key_matches ''xyzzy'') (keys unnumbered) = None"
    by (simp_all add: key_matches_def keys_def numbered_def unnumbered_def)
  from closest_match_fallback [of "''xyzzy''"] x fx
  have 3: "lookup_allophone ''xyzzy'' = Inr ''''" by simp
  from d a fd fa fx 1 2 3 show ?thesis by simp
qed

section \<open>Range of the resolver\<close>

lemma first_of_numbered:
  assumes "k \<in> set (keys numbered)"
  shows "\<exists>f rest. (k, f # rest) \<in> set numbered \<and> getitem0 numbered k = Inr f"
proof -
  from assms obtain f rest where g: "getitem numbered k = Inr (f # rest)"
    using numbered_entries by blast
  then have "map_of numbered k = Some (f # rest)"
    by (simp add: getitem_def split: option.splits)
  then have "(k, f # rest) \<in> set numbered" by (rule map_of_SomeD)
  with g show ?thesis by (auto simp: getitem0_def item0_Cons)
qed

lemma first_of_unnumbered:
  assumes "k \<in> set (keys unnumbered)"
  shows "\<exists>f. (k, [f]) \<in> set unnumbered \<and> getitem0 unnumbered k = Inr f"
proof -
  from assms obtain f where g: "getitem unnumbered k = Inr [f]"
    using unnumbered_entries by blast
  then have "map_of unnumbered k = Some [f]"
    by (simp add: getitem_def split: option.splits)
  then have "(k, [f]) \<in> set unnumbered" by (rule map_of_SomeD)
  with g show ?thesis by (auto simp: getitem0_def item0_Cons)
qed

text \<open>Every fragment identifier the resolver can return, other than the sentinels'.\<close>

lemma closest_or_empty_range:
  "closest_or_empty label = Inr '''' \<or>
   (\<exists>k f rest. (k, f # rest) \<in> set (numbered @ unnumbered) \<and> closest_or_empty label = Inr f)"
proof (cases "find (key_matches label) (keys numbered)")
  case (Some k)
  then have "k \<in> set (keys numbered)" by (rule find_in_set)
  from first_of_numbered [OF this] Some show ?thesis
    by (auto simp: closest_or_empty_find)
next
  case None
  show ?thesis
  proof (cases "find (key_matches label) (keys unnumbered)")
    case (Some k)
    then have "k \<in> set (keys unnumbered)" by (rule find_in_set)
    from first_of_unnumbered [OF this] Some None show ?thesis
      by (auto simp: closest_or_empty_find)
  next
    case n: None
    with None show ?thesis by (simp add: closest_or_empty_find)
  qed
qed

lemma lookup_allophone_range:
  "lookup_allophone label \<in> Inr ` {''SPACE.wav'', ''PERIOD.wav'', ''COMMA.wav'', ''''} \<or>
   (\<exists>k f rest. (k, f # rest) \<in> set (numbered @ unnumbered) \<and> lookup_allophone label = Inr f)"
proof -
  let ?s = "filter (\<lambda>c. \<not> isdigit c) label"
  consider (sent) "label = ''SPACE'' \<or> label = ''PERIOD'' \<or> label = ''COMMA''"
    | (num) "has_key label numbered"
    | (unn) "has_key label unnumbered" "\<not> has_key label numbered"
    | (snum) "label \<noteq> ''SPACE''" "label \<noteq> ''PERIOD''" "label \<noteq> ''COMMA''"
        "\<not> has_key label numbered" "\<not> has_key label unnumbered"
        "\<exists>c \<in> set label. isdigit c" "has_key ?s numbered"
    | (sunn) "label \<noteq> ''SPACE''" "label \<noteq> ''PERIOD''" "label \<noteq> ''COMMA''"
        "\<not> has_key label numbered" "\<not> has_key label unnumbered"
        "\<exists>c \<in> set label. isdigit c" "\<not> has_key ?s numbered" "has_key ?s unnumbered"
    | (fall) "label \<noteq> ''SPACE''" "label \<noteq> ''PERIOD''" "label \<noteq> ''COMMA''"
        "\<not> has_key label numbered" "\<not> has_key label unnumbered"
        "\<not> has_key ?s numbered" "\<not> has_key ?s unnumbered"
    by (cases "\<exists>c \<in> set label. isdigit c") (auto simp: filter_id_conv)
  then show ?thesis
  proof cases
    case sent
    then show ?thesis by (auto simp: lookup_allophone_def)
  next
    case num
    with first_of_numbered [of label] show ?thesis
      by (auto simp: lookup_numbered has_key_def)
  next
    case unn
    with first_of_unnumbered [of label] show ?thesis
      by (auto simp: lookup_unnumbered has_key_def)
  next
    case snum
    then have "lookup_allophone label = getitem0 numbered ?s"
      by (simp add: lookup_stripped)
    with first_of_numbered [of ?s] snum(7) show ?thesis
      by (auto simp: has_key_def)
  next
    case sunn
    then have "lookup_allophone label = getitem0 unnumbered ?s"
      by (simp add: lookup_stripped)
    with first_of_unnumbered [of ?s] sunn(8) show ?thesis
      by (auto simp: has_key_def)
  next
    case fall
    then have "lookup_allophone label = closest_or_empty label"
      by (rule lookup_fallback)
    with closest_or_empty_range [of label] show ?thesis by auto
  qed
qed


lemma first_not_later:
  "\<forall>(k, fs) \<in> set (numbered @ unnumbered).
     \<forall>(k', fs') \<in> set (numbered @ unnumbered). hd fs \<notin> set (tl fs')"
  by (simp add: numbered_def unnumbered_def)

lemma sentinel_not_later:
  "\<forall>(k, fs) \<in> set (numbered @ unnumbered).
     ''SPACE.wav'' \<notin> set (tl fs) \<and> ''PERIOD.wav'' \<notin> set (tl fs) \<and> ''COMMA.wav'' \<notin> set (tl fs)"
  by (simp add: numbered_def unnumbered_def)

text \<open>
  Claim C10. The resolver returns a string for every label, and a returned string that is not
  empty is a sentinel fragment file or the first element of the fragment list of some
  catalog entry; it is never an element listed after the first in any entry.
\<close>

theorem resolver_returns_first_variant:
  "\<exists>r. lookup_allophone label = Inr r \<and>
     (r \<noteq> '''' \<longrightarrow>
        (r \<in> {''SPACE.wav'', ''PERIOD.wav'', ''COMMA.wav''} \<or>
         (\<exists>k rest. (k, r # rest) \<in> set (numbered @ unnumbered))) \<and>
        (\<forall>(k, fs) \<in> set (numbered @ unnumbered). r \<notin> set (tl fs)))"
proof -
  from lookup_allophone_range [of label]
  consider (fixed) "lookup_allophone label \<in> Inr ` {''SPACE.wav'', ''PERIOD.wav'', ''COMMA.wav'', ''''}"
    | (entry) k f rest where "(k, f # rest) \<in> set (numbered @ unnumbered)"
        "lookup_allophone label = Inr f"
    by blast
  then show ?thesis
  proof cases
    case fixed
    then obtain r where r: "lookup_allophone label = Inr r"
      "r \<in> {''SPACE.wav'', ''PERIOD.wav'', ''COMMA.wav'', ''''}" by blast
    from r(2) sentinel_not_later
    have "r \<noteq> '''' \<longrightarrow> (\<forall>(k, fs) \<in> set (numbered @ unnumbered). r \<notin> set (tl fs))"
      by blast
    with r show ?thesis by blast
  next
    case entry
    from first_not_later entry(1)
    have "\<forall>(k', fs') \<in> set (numbered @ unnumbered). f \<notin> set (tl fs')"
      by fastforce
    with entry show ?thesis by blast
  qed
qed

theorem resolver_returns_first_variant_witness:
  "lookup_allophone ''K'' = Inr ''KK1.wav'' \<and> ''KK1.wav'' \<noteq> '''' \<and>
   (''KK'', ''KK1.wav'' # [''KK2.wav'', ''KK3.wav'']) \<in> set (numbered @ unnumbered) \<and>
   ''KK1.wav'' \<notin> set (tl [''KK1.wav'', ''KK2.wav'', ''KK3.wav''])"
proof -
  have l: "lookup_allophone ''K'' = Inr ''KK1.wav''"
    by (simp add: lookup_allophone_def has_key_def keys_def numbered_def unnumbered_def
        allophone_contains_digit_def isdigit_def ord_def closest_or_empty_def
        find_closest_match_def getitem_def item_def)
  have m: "(''KK'', [''KK1.wav'', ''KK2.wav'', ''KK3.wav'']) \<in> set (numbered @ unnumbered)"
    by (simp add: numbered_def)
  from resolver_returns_first_variant [of "''K''"] l
  have "\<forall>(k, fs) \<in> set (numbered @ unnumbered). ''KK1.wav'' \<notin> set (tl fs)" by simp
  with m have "''KK1.wav'' \<notin> set (tl [''KK1.wav'', ''KK2.wav'', ''KK3.wav''])" by blast
  with l m show ?thesis by simp
qed

section \<open>Tokenizer and word-to-label mapping\<close>

lemma concat_parse_input: "concat (parse_input s) = s"
proof (induction s rule: parse_input.induct)
  case 1
  show ?case by simp
next
  case (2 c cs)
  show ?case
  proof (cases "is_word_char c")
    case True
    with 2 show ?thesis by simp
  next
    case False
    with 2 show ?thesis by (cases "is_space_char c") simp_all
  qed
qed

lemma findall_words_word:
  "w \<in> set (findall_words s) \<Longrightarrow> w \<noteq> [] \<and> set w \<subseteq> set s \<and> (\<forall>c \<in> set w. is_word_char c)"
proof (induction s rule: findall_words.induct)
  case 1
  then show ?case by simp
next
  case (2 c cs)
  show ?case
  proof (cases "is_word_char c")
    case False
    with 2 have "w \<noteq> [] \<and> set w \<subseteq> set cs \<and> (\<forall>c \<in> set w. is_word_char c)" by simp
    then show ?thesis by auto
  next
    case True
    with "2.prems" consider "w = c # takeWhile is_word_char cs"
      | "w \<in> set (findall_words (dropWhile is_word_char cs))" by auto
    then show ?thesis
    proof cases
      case 1
      have "set (takeWhile is_word_char cs) \<subseteq> set cs"
        by (auto dest: set_takeWhileD)
      moreover have "\<forall>x \<in> set (takeWhile is_word_char cs). is_word_char x"
        by (auto dest: set_takeWhileD)
      ultimately show ?thesis using 1 True by auto
    next
      case 2
      with "2.IH"(1) True have a: "w \<noteq> []" "set w \<subseteq> set (dropWhile is_word_char cs)"
        "\<forall>c \<in> set w. is_word_char c" by simp_all
      have "set (dropWhile is_word_char cs) \<subseteq> set cs"
        by (auto dest: set_dropWhileD)
      with a show ?thesis by auto
    qed
  qed
qed


lemma add_words_lookup:
  "add_words cmu_dict ws d w =
     (if w \<in> set ws
      then Some (case dict_get cmu_dict w of [] \<Rightarrow> [w] | pronunciation # _ \<Rightarrow> pronunciation)
      else d w)"
proof (induction ws arbitrary: d)
  case Nil
  show ?case by simp
next
  case (Cons v ws)
  show ?case
  proof (cases "dict_get cmu_dict v")
    case Nil
    then show ?thesis by (simp add: Cons.IH)
  next
    case (Cons p ps)
    then show ?thesis by (simp add: Cons.IH)
  qed
qed

lemma text_to_allophones_lookup:
  "text_to_allophones cmu_dict text w =
     (if w \<in> set (findall_words (lower text))
      then Some (case dict_get cmu_dict w of [] \<Rightarrow> [w] | pronunciation # _ \<Rightarrow> pronunciation)
      else None)"
  by (simp add: text_to_allophones_def add_words_lookup)

lemma ord_lt_256: "ord c < 256"
  by (simp add: ord_def)

lemma lower_char_not_upper: "\<not> is_ascii_upper (lower_char c)"
proof -
  let ?n = "ord c"
  show ?thesis
  proof (cases "(65 \<le> ?n \<and> ?n \<le> 90) \<or> (192 \<le> ?n \<and> ?n \<le> 214) \<or> (216 \<le> ?n \<and> ?n \<le> 222)")
    case True
    then have l: "lower_char c = char_of (?n + 32)" by (simp add: lower_char_def Let_def)
    from True have "?n + 32 < 256" by auto
    then have "ord (char_of (?n + 32)) = ?n + 32" by (simp add: ord_def)
    with l True show ?thesis by (auto simp: is_ascii_upper_def)
  next
    case False
    then have "lower_char c = c" by (auto simp: lower_char_def Let_def)
    with False show ?thesis by (auto simp: is_ascii_upper_def)
  qed
qed

lemma lower_not_upper: "c \<in> set (lower s) \<Longrightarrow> \<not> is_ascii_upper c"
  by (auto simp: lower_def lower_char_not_upper)

lemma punctuation_not_word:
  "\<not> is_word_char CHR '',''" "\<not> is_word_char CHR '' ''" "\<not> is_word_char CHR ''.''"
  by (simp_all add: is_word_char_def ord_def)

lemma punctuation_not_key:
  "text_to_allophones cmu_dict text '','' = None"
  "text_to_allophones cmu_dict text '' '' = None"
  "text_to_allophones cmu_dict text ''.'' = None"
proof -
  have "s \<notin> set (findall_words (lower text))" if "s = [c]" "\<not> is_word_char c" for s c
    using findall_words_word [of s "lower text"] that by auto
  then show "text_to_allophones cmu_dict text '','' = None"
    "text_to_allophones cmu_dict text '' '' = None"
    "text_to_allophones cmu_dict text ''.'' = None"
    using punctuation_not_word by (simp_all add: text_to_allophones_lookup)
qed

lemma uppercase_not_key:
  assumes "\<exists>c \<in> set token. is_ascii_upper c"
  shows "text_to_allophones cmu_dict text token = None"
proof (rule ccontr)
  assume "text_to_allophones cmu_dict text token \<noteq> None"
  then have "token \<in> set (findall_words (lower text))"
    by (simp add: text_to_allophones_lookup split: if_splits)
  then have "set token \<subseteq> set (lower text)" using findall_words_word by blast
  with assms lower_not_upper show False by blast
qed


section \<open>The expander\<close>

lemma process_loop_acc: "process_loop toks d c = c @ process_loop toks d []"
proof (induction toks arbitrary: c)
  case Nil
  show ?case by simp
next
  case (Cons t toks)
  have step: "process_loop toks d (c @ x) = c @ process_loop toks d x" for x
    using Cons.IH [of "c @ x"] Cons.IH [of x] by simp
  show ?case
  proof (cases "d t")
    case (Some labels)
    with step [of labels] show ?thesis by simp
  next
    case None
    with step [of "[''COMMA'']"] step [of "[''SPACE'']"] step [of "[''PERIOD'']"] Cons.IH [of c]
    show ?thesis by simp
  qed
qed

lemma process_loop_append:
  "process_loop (xs @ ys) d c = process_loop ys d (process_loop xs d c)"
proof (induction xs arbitrary: c)
  case Nil
  show ?case by simp
next
  case (Cons t xs)
  show ?case by (cases "d t") (simp_all add: Cons.IH)
qed

lemma process_punctuation_append:
  "process_punctuation (xs @ ys) d = process_punctuation xs d @ process_punctuation ys d"
  unfolding process_punctuation_def
  using process_loop_acc [of ys d "process_loop xs d []"]
  by (simp add: process_loop_append)

lemma process_punctuation_Cons:
  "process_punctuation (t # ts) d = process_punctuation [t] d @ process_punctuation ts d"
  using process_punctuation_append [of "[t]" ts d] by simp

lemma process_punctuation_Nil: "process_punctuation [] d = []"
  by (simp add: process_punctuation_def)


text \<open>
  Claim C6. Concatenating all tokens that the tokenizer returns for an input string, in
  order, gives back the input string.
\<close>

theorem tokens_reassemble: "concat (parse_input input_text) = input_text"
  by (rule concat_parse_input)

text \<open>
  Claim C8. The words looked up are the runs of word characters of the lower-cased text. A
  word among them that is absent from the pronunciation dictionary is mapped to the list
  holding just that word.
\<close>

theorem absent_word_kept:
  assumes "word \<in> set (findall_words (lower text))" and "cmu_dict word = None"
  shows "text_to_allophones cmu_dict text word = Some [word]"
  using assms by (simp add: text_to_allophones_lookup dict_get_def)

theorem absent_word_kept_witness:
  "''xyzzy'' \<in> set (findall_words (lower ''Xyzzy hi'')) \<and>
   [''hi'' \<mapsto> [[''HH'', ''AY1'']]] ''xyzzy'' = None \<and>
   text_to_allophones [''hi'' \<mapsto> [[''HH'', ''AY1'']]] ''Xyzzy hi'' ''xyzzy'' = Some [''xyzzy'']"
proof -
  have w: "findall_words (lower ''Xyzzy hi'') = [''xyzzy'', ''hi'']"
    by code_simp
  then have m: "''xyzzy'' \<in> set (findall_words (lower ''Xyzzy hi''))" by simp
  have a: "[''hi'' \<mapsto> [[''HH'', ''AY1'']]] ''xyzzy'' = None" by simp
  from absent_word_kept [of "''xyzzy''" "''Xyzzy hi''" "[''hi'' \<mapsto> [[''HH'', ''AY1'']]]"] m a
  show ?thesis by simp
qed

text \<open>
  Claim C9. A token of the input that contains an ASCII uppercase letter is no key of the
  word-to-label mapping, whatever the pronunciation dictionary holds, and adds no label: the
  expander's output is that of the tokens before it followed by that of the tokens after it.
\<close>

theorem uppercase_word_dropped:
  assumes "parse_input text = pre @ token # post" and "\<exists>c \<in> set token. is_ascii_upper c"
  shows "text_to_allophones cmu_dict text token = None \<and>
         process_punctuation (parse_input text) (text_to_allophones cmu_dict text) =
           process_punctuation pre (text_to_allophones cmu_dict text) @
           process_punctuation post (text_to_allophones cmu_dict text)"
proof -
  let ?d = "text_to_allophones cmu_dict text"
  have n: "?d token = None" using assms(2) by (rule uppercase_not_key)
  from assms(2) have "token \<noteq> '',''" "token \<noteq> '' ''" "token \<noteq> ''.''"
    by (auto simp: is_ascii_upper_def ord_def)
  with n have "process_punctuation [token] ?d = []"
    by (simp add: process_punctuation_def)
  then have "process_punctuation (pre @ token # post) ?d =
      process_punctuation pre ?d @ process_punctuation post ?d"
    using process_punctuation_append [of pre "token # post" ?d]
      process_punctuation_Cons [of token post ?d] by simp
  with n assms(1) show ?thesis by simp
qed

theorem uppercase_word_dropped_witness:
  "parse_input ''Hi hi'' = [] @ ''Hi'' # ['' '', ''hi''] \<and>
   (\<exists>c. c \<in> set ''Hi'' \<and> is_ascii_upper c) \<and>
   [''hi'' \<mapsto> [[''HH'', ''AY1'']]] (lower ''Hi'') = Some [[''HH'', ''AY1'']] \<and>
   process_punctuation (parse_input ''Hi hi'') (text_to_allophones [''hi'' \<mapsto> [[''HH'', ''AY1'']]] ''Hi hi'')
     = [''SPACE'', ''HH'', ''AY1'']"
proof -
  let ?cmu = "[''hi'' \<mapsto> [[''HH'', ''AY1'']]]"
  let ?d = "text_to_allophones ?cmu ''Hi hi''"
  have p: "parse_input ''Hi hi'' = [] @ ''Hi'' # ['' '', ''hi'']"
    by (simp add: is_word_char_def is_space_char_def ord_def)
  have u: "\<exists>c \<in> set ''Hi''. is_ascii_upper c"
    by (simp add: is_ascii_upper_def ord_def)
  have "lower ''Hi'' = ''hi''" by code_simp
  then have l: "?cmu (lower ''Hi'') = Some [[''HH'', ''AY1'']]" by simp
  have w: "findall_words (lower ''Hi hi'') = [''hi'', ''hi'']"
    by code_simp
  have d: "?d '' '' = None" "?d ''hi'' = Some [''HH'', ''AY1'']"
    by (simp_all add: text_to_allophones_def w dict_get_def)
  have r: "process_punctuation ['' '', ''hi''] ?d = [''SPACE'', ''HH'', ''AY1'']"
    by (simp add: process_punctuation_def d)
  from uppercase_word_dropped [of "''Hi hi''" "[]" "''Hi''" "['' '', ''hi'']" ?cmu] p u r
  have "process_punctuation (parse_input ''Hi hi'') ?d = [''SPACE'', ''HH'', ''AY1'']"
    by (simp add: process_punctuation_Nil)
  with p u l show ?thesis by blast
qed


lemma expands_to_single:
  assumes "d '','' = None" "d '' '' = None" "d ''.'' = None"
  shows "expands_to d t (process_punctuation [t] d)"
proof (cases "d t")
  case (Some labels)
  with assms have "t \<noteq> '',''" "t \<noteq> '' ''" "t \<noteq> ''.''" by auto
  with Some show ?thesis by (simp add: expands_to_def process_punctuation_def)
next
  case None
  then show ?thesis by (simp add: expands_to_def process_punctuation_def)
qed

lemma expander_parts:
  assumes "d '','' = None" "d '' '' = None" "d ''.'' = None"
  shows "\<exists>parts. list_all2 (expands_to d) toks parts \<and> process_punctuation toks d = concat parts"
proof (induction toks)
  case Nil
  show ?case by (simp add: process_punctuation_Nil)
next
  case (Cons t toks)
  then obtain parts where p: "list_all2 (expands_to d) toks parts"
    "process_punctuation toks d = concat parts" by blast
  let ?ps = "process_punctuation [t] d # parts"
  from p(1) expands_to_single [OF assms, of t]
  have "list_all2 (expands_to d) (t # toks) ?ps" by simp
  moreover from p(2) have "process_punctuation (t # toks) d = concat ?ps"
    using process_punctuation_Cons [of t toks d] by simp
  ultimately show ?case by blast
qed

text \<open>
  Claim C5. For the tokens of a text and the word-to-label mapping of the same text, the
  output of the expander is the concatenation, in token order, of one part per token, each
  part being what the contract \<open>expands_to\<close> prescribes for its token.
\<close>

theorem expander_contract:
  "\<exists>parts.
     list_all2 (expands_to (text_to_allophones cmu_dict text)) (parse_input text) parts \<and>
     process_punctuation (parse_input text) (text_to_allophones cmu_dict text) = concat parts"
  by (rule expander_parts) (rule punctuation_not_key)+

theorem expander_contract_witness:
  "process_punctuation (parse_input ''hi .,!'')
     (text_to_allophones [''hi'' \<mapsto> [[''HH'', ''AY1'']]] ''hi .,!'')
   = [''HH'', ''AY1'', ''SPACE'', ''PERIOD'', ''COMMA'']"
proof -
  let ?cmu = "[''hi'' \<mapsto> [[''HH'', ''AY1'']]]"
  let ?d = "text_to_allophones ?cmu ''hi .,!''"
  have t: "parse_input ''hi .,!'' = [''hi'', '' '', ''.'', '','', ''!'']"
    by code_simp
  have w: "findall_words (lower ''hi .,!'') = [''hi'']"
    by code_simp
  have d: "?d ''hi'' = Some [''HH'', ''AY1'']" "?d '' '' = None" "?d ''.'' = None"
    "?d '','' = None" "?d ''!'' = None"
    by (simp_all add: text_to_allophones_def w dict_get_def)
  from expander_contract [of ?cmu "''hi .,!''"] obtain parts where
    a: "list_all2 (expands_to ?d) [''hi'', '' '', ''.'', '','', ''!''] parts"
    and c: "process_punctuation (parse_input ''hi .,!'') ?d = concat parts"
    unfolding t by blast
  from a obtain p1 p2 p3 p4 p5 where ps: "parts = [p1, p2, p3, p4, p5]"
    and e: "expands_to ?d ''hi'' p1" "expands_to ?d '' '' p2" "expands_to ?d ''.'' p3"
      "expands_to ?d '','' p4" "expands_to ?d ''!'' p5"
    by (auto simp: list_all2_Cons1)
  from e(1) d have 1: "p1 = [''HH'', ''AY1'']" by (simp add: expands_to_def)
  from e(2) d have 2: "p2 = [''SPACE'']" by (simp add: expands_to_def)
  from e(3) d have 3: "p3 = [''PERIOD'']" by (simp add: expands_to_def)
  from e(4) d have 4: "p4 = [''COMMA'']" by (simp add: expands_to_def)
  from e(5) d have 5: "p5 = []" by (simp add: expands_to_def)
  from c ps 1 2 3 4 5 show ?thesis by simp
qed

section \<open>The waveform assembler\<close>

lemma read_loop_same_rate:
  assumes "\<forall>g \<in> set pre. \<exists>audio. fragments w g = Some (r, audio)"
    and "fragments w f = Some (r', audio')" and "r' \<noteq> r"
  shows "read_loop (pre @ f # post) acc (Some r) w =
           (Inl ValueError, w\<lparr>printed := printed w @ pre @ [f]\<rparr>)"
  using assms
proof (induction pre arbitrary: acc w)
  case Nil
  then show ?case by simp
next
  case (Cons g pre)
  from Cons.prems(1) obtain audio where g: "fragments w g = Some (r, audio)" by auto
  let ?w1 = "w\<lparr>printed := printed w @ [g]\<rparr>"
  have "read_loop (pre @ f # post) (acc @ audio) (Some r) ?w1 =
      (Inl ValueError, ?w1\<lparr>printed := printed ?w1 @ pre @ [f]\<rparr>)"
    using Cons.prems by (intro Cons.IH) simp_all
  with g show ?case by simp
qed

lemma write_wav_mismatch:
  assumes "pre \<noteq> []"
    and "\<forall>g \<in> set pre. \<exists>audio. fragments w g = Some (r, audio)"
    and "fragments w f = Some (r', audio')" and "r' \<noteq> r"
  shows "write_wav (pre @ f # post) w =
           (Inl ValueError, w\<lparr>printed := printed w @ pre @ [f]\<rparr>)"
proof -
  from assms(1) obtain g pre' where pre: "pre = g # pre'" by (cases pre) auto
  with assms(2) obtain audio where g: "fragments w g = Some (r, audio)" by auto
  let ?w1 = "w\<lparr>printed := printed w @ [g]\<rparr>"
  have "read_loop (pre' @ f # post) ([] @ audio) (Some r) ?w1 =
      (Inl ValueError, ?w1\<lparr>printed := printed ?w1 @ pre' @ [f]\<rparr>)"
    using assms pre by (intro read_loop_same_rate) simp_all
  with g pre show ?thesis by (simp add: write_wav_def)
qed

text \<open>
  Claim C7. Take a fragment sequence in which the fragment at some position \<open>i\<close> has a sample
  rate other than that of the first fragment, the fragments up to \<open>i\<close> being readable. Then
  \<open>write_wav\<close> raises \<open>ValueError\<close> at the first position \<open>k\<close> whose rate differs: it has
  started to read the fragments up to \<open>k\<close> and no further, and the output file is what it
  was before the call.
\<close>

theorem rate_mismatch_aborts:
  assumes "i < length wav_files"
    and "\<forall>j \<le> i. \<exists>rt audio. fragments w (wav_files ! j) = Some (rt, audio)"
    and "sample_rate_of w (wav_files ! i) \<noteq> sample_rate_of w (wav_files ! 0)"
  shows "\<exists>k. 0 < k \<and> k \<le> i \<and>
           (\<forall>j < k. sample_rate_of w (wav_files ! j) = sample_rate_of w (wav_files ! 0)) \<and>
           sample_rate_of w (wav_files ! k) \<noteq> sample_rate_of w (wav_files ! 0) \<and>
           write_wav wav_files w =
             (Inl ValueError, w\<lparr>printed := printed w @ take (Suc k) wav_files\<rparr>) \<and>
           output_file (snd (write_wav wav_files w)) = output_file w"
proof -
  let ?differs = "\<lambda>k. sample_rate_of w (wav_files ! k) \<noteq> sample_rate_of w (wav_files ! 0)"
  define k where "k = (LEAST k. ?differs k)"
  have dk: "?differs k" unfolding k_def using assms(3) by (rule LeastI)
  have ki: "k \<le> i" unfolding k_def using assms(3) by (rule Least_le)
  have before: "\<not> ?differs j" if "j < k" for j
    using that unfolding k_def by (rule not_less_Least)
  from dk have k0: "0 < k" by (cases k) auto
  from ki assms(1) have kl: "k < length wav_files" by simp
  from assms(2) ki obtain r a0 where f0: "fragments w (wav_files ! 0) = Some (r, a0)"
    by (metis le0)
  from assms(2) ki obtain r' audio' where fk: "fragments w (wav_files ! k) = Some (r', audio')"
    by blast
  from dk f0 fk have ne: "r' \<noteq> r" by (auto simp: sample_rate_of_def)
  have pre: "\<forall>g \<in> set (take k wav_files). \<exists>audio. fragments w g = Some (r, audio)"
  proof
    fix g assume "g \<in> set (take k wav_files)"
    then obtain j where j: "j < k" "g = wav_files ! j"
      using kl by (auto simp: in_set_conv_nth)
    with assms(2) ki obtain rt audio where fj: "fragments w g = Some (rt, audio)"
      by (metis le_trans less_imp_le_nat)
    from before [OF j(1)] j(2) fj f0 have "rt = r" by (simp add: sample_rate_of_def)
    with fj show "\<exists>audio. fragments w g = Some (r, audio)" by blast
  qed
  have split: "wav_files = take k wav_files @ wav_files ! k # drop (Suc k) wav_files"
    using kl by (rule id_take_nth_drop)
  have nonempty: "take k wav_files \<noteq> []" using k0 kl by auto
  have "write_wav (take k wav_files @ wav_files ! k # drop (Suc k) wav_files) w =
      (Inl ValueError, w\<lparr>printed := printed w @ take k wav_files @ [wav_files ! k]\<rparr>)"
    using nonempty pre fk ne by (rule write_wav_mismatch)
  with split kl have w: "write_wav wav_files w =
      (Inl ValueError, w\<lparr>printed := printed w @ take (Suc k) wav_files\<rparr>)"
    by (simp add: take_Suc_conv_app_nth)
  have o: "output_file (snd (write_wav wav_files w)) = output_file w"
    by (simp add: w)
  have b: "\<forall>j < k. sample_rate_of w (wav_files ! j) = sample_rate_of w (wav_files ! 0)"
    using before by blast
  show ?thesis
    by (rule exI [of _ k]) (intro conjI k0 ki b dk w o)
qed


theorem rate_mismatch_aborts_witness:
  "write_wav [''AA.wav'', ''AY.wav'', ''ZZ.wav'', ''SS.wav'']
     \<lparr>fragments = [''AA.wav'' \<mapsto> (8000, [1, 2]), ''AY.wav'' \<mapsto> (8000, [3]),
                   ''ZZ.wav'' \<mapsto> (11025, [4]), ''SS.wav'' \<mapsto> (8000, [5])],
      output_file = None, printed = []\<rparr>
   = (Inl ValueError,
      \<lparr>fragments = [''AA.wav'' \<mapsto> (8000, [1, 2]), ''AY.wav'' \<mapsto> (8000, [3]),
                    ''ZZ.wav'' \<mapsto> (11025, [4]), ''SS.wav'' \<mapsto> (8000, [5])],
       output_file = None, printed = [''AA.wav'', ''AY.wav'', ''ZZ.wav'']\<rparr>)"
proof -
  let ?fs = "[''AA.wav'', ''AY.wav'', ''ZZ.wav'', ''SS.wav'']"
  let ?w = "\<lparr>fragments = [''AA.wav'' \<mapsto> (8000 :: rate, [1, 2 :: sample]),
                ''AY.wav'' \<mapsto> (8000, [3]), ''ZZ.wav'' \<mapsto> (11025, [4]),
                ''SS.wav'' \<mapsto> (8000, [5])],
             output_file = None, printed = []\<rparr>"
  have r: "sample_rate_of ?w (?fs ! 0) = Some 8000" "sample_rate_of ?w (?fs ! 1) = Some 8000"
    "sample_rate_of ?w (?fs ! 2) = Some 11025"
    by (simp_all add: sample_rate_of_def)
  have h1: "(2 :: nat) < length ?fs" by simp
  have h2: "\<forall>j \<le> 2. \<exists>rt audio. fragments ?w (?fs ! j) = Some (rt, audio)"
  proof (intro allI impI)
    fix j :: nat assume "j \<le> 2"
    then consider "j = 0" | "j = 1" | "j = 2" by linarith
    then show "\<exists>rt audio. fragments ?w (?fs ! j) = Some (rt, audio)"
      by cases simp_all
  qed
  have h3: "sample_rate_of ?w (?fs ! 2) \<noteq> sample_rate_of ?w (?fs ! 0)"
    unfolding r by simp
  from rate_mismatch_aborts [OF h1 h2 h3] obtain k where
    k: "0 < k" "k \<le> 2" "sample_rate_of ?w (?fs ! k) \<noteq> sample_rate_of ?w (?fs ! 0)"
    and w: "write_wav ?fs ?w = (Inl ValueError, ?w\<lparr>printed := printed ?w @ take (Suc k) ?fs\<rparr>)"
    by blast
  from k(1,2) consider "k = 1" | "k = 2" by linarith
  then have "k = 2"
  proof cases
    case 1
    with k(3) r show ?thesis by simp
  next
    case 2
    then show ?thesis .
  qed
  with w show ?thesis by (simp add: numeral_3_eq_3 [symmetric])
qed


section \<open>End to end\<close>

lemma lookup_hi_labels:
  "lookup_allophone ''HH'' = Inr ''HH1.wav''"
  "lookup_allophone ''AY1'' = Inr ''AY.wav''"
  "lookup_allophone ''PERIOD'' = Inr ''PERIOD.wav''"
  by (simp_all add: lookup_allophone_def has_key_def keys_def numbered_def unnumbered_def
      allophone_contains_digit_def isdigit_def ord_def getitem0_def getitem_def item_def)

lemma hi_labels:
  assumes "cmu_dict ''hi'' = Some ([''HH'', ''AY1''] # variants)"
  shows "process_punctuation (parse_input ''hi.'') (text_to_allophones cmu_dict ''hi.'')
           = [''HH'', ''AY1'', ''PERIOD'']"
proof -
  have t: "parse_input ''hi.'' = [''hi'', ''.'']" by code_simp
  have w: "findall_words (lower ''hi.'') = [''hi'']" by code_simp
  have d: "text_to_allophones cmu_dict ''hi.'' = [''hi'' \<mapsto> [''HH'', ''AY1'']]"
    using assms by (simp add: text_to_allophones_def w dict_get_def)
  show ?thesis unfolding t d by (simp add: process_punctuation_def)
qed

lemma write_two:
  assumes "fragments w a = Some (r, s1)" and "fragments w b = Some (r, s2)"
  shows "write_wav [a, b] w =
           (Inr ''output.wav'',
            w\<lparr>printed := printed w @ [a, b], output_file := Some (Wav r (s1 @ s2))\<rparr>)"
  using assms by (simp add: write_wav_def wavfile_write_def OUTPUT_FILE_def)

text \<open>
  Claim C4. For the input \<open>hi.\<close>, a pronunciation dictionary whose first pronunciation of
  \<open>hi\<close> is \<open>HH AY1\<close>, and the three flags set, the labels resolve to \<open>HH1.wav\<close>, \<open>AY.wav\<close>
  and \<open>PERIOD.wav\<close>, the filter removes the last, and \<open>main\<close> writes an output file that
  holds the samples of \<open>HH1.wav\<close> followed by those of \<open>AY.wav\<close> at the rate the two share.
\<close>

theorem hi_end_to_end:
  assumes "cmu_dict ''hi'' = Some ([''HH'', ''AY1''] # variants)"
    and "IGNORE_SPACES fl" and "IGNORE_PERIODS fl" and "IGNORE_COMMAS fl"
    and "fragments w ''HH1.wav'' = Some (r, s1)" and "fragments w ''AY.wav'' = Some (r, s2)"
  shows "resolve_loop
           (process_punctuation (parse_input ''hi.'') (text_to_allophones cmu_dict ''hi.'')) []
           = Inr [''HH1.wav'', ''AY.wav'', ''PERIOD.wav''] \<and>
         main_fragments cmu_dict fl ''hi.'' = Inr [''HH1.wav'', ''AY.wav''] \<and>
         main cmu_dict fl ''hi.'' w =
           (Inr ''output.wav'',
            w\<lparr>printed := printed w @ [''HH1.wav'', ''AY.wav''],
              output_file := Some (Wav r (s1 @ s2))\<rparr>)"
proof -
  have l: "process_punctuation (parse_input ''hi.'') (text_to_allophones cmu_dict ''hi.'')
      = [''HH'', ''AY1'', ''PERIOD'']"
    using assms(1) by (rule hi_labels)
  have rl: "resolve_loop [''HH'', ''AY1'', ''PERIOD''] []
      = Inr [''HH1.wav'', ''AY.wav'', ''PERIOD.wav'']"
    by (simp add: lookup_hi_labels)
  have p: "prune_punctuation fl [''HH1.wav'', ''AY.wav'', ''PERIOD.wav''] = [''HH1.wav'', ''AY.wav'']"
    using assms(2-4) by (simp add: prune_punctuation_def)
  have mf: "main_fragments cmu_dict fl ''hi.'' = Inr [''HH1.wav'', ''AY.wav'']"
    unfolding main_fragments_def Let_def l rl using assms(2) by (simp add: p)
  have m: "main cmu_dict fl ''hi.'' w =
      (Inr ''output.wav'',
       w\<lparr>printed := printed w @ [''HH1.wav'', ''AY.wav''],
         output_file := Some (Wav r (s1 @ s2))\<rparr>)"
    using write_two [OF assms(5,6)] by (simp add: main_def mf)
  from rl have "resolve_loop
      (process_punctuation (parse_input ''hi.'') (text_to_allophones cmu_dict ''hi.'')) []
      = Inr [''HH1.wav'', ''AY.wav'', ''PERIOD.wav'']"
    unfolding l .
  with mf m show ?thesis by (intro conjI)
qed

theorem hi_end_to_end_witness:
  "main [''hi'' \<mapsto> [[''HH'', ''AY1'']]] source_flags ''hi.''
     \<lparr>fragments = [''HH1.wav'' \<mapsto> (8000, [1, 2]), ''AY.wav'' \<mapsto> (8000, [3])],
      output_file = None, printed = []\<rparr>
   = (Inr ''output.wav'',
      \<lparr>fragments = [''HH1.wav'' \<mapsto> (8000, [1, 2]), ''AY.wav'' \<mapsto> (8000, [3])],
       output_file = Some (Wav 8000 [1, 2, 3]),
       printed = [''HH1.wav'', ''AY.wav'']\<rparr>)"
proof -
  let ?cmu = "[''hi'' \<mapsto> [[''HH'', ''AY1'']]]"
  let ?w = "\<lparr>fragments = [''HH1.wav'' \<mapsto> (8000 :: rate, [1, 2 :: sample]),
                ''AY.wav'' \<mapsto> (8000, [3])],
             output_file = None, printed = []\<rparr>"
  have c: "?cmu ''hi'' = Some ([''HH'', ''AY1''] # [])" by simp
  have f: "IGNORE_SPACES source_flags" "IGNORE_PERIODS source_flags" "IGNORE_COMMAS source_flags"
    by (simp_all add: source_flags_def)
  have a: "fragments ?w ''HH1.wav'' = Some (8000, [1, 2])"
    "fragments ?w ''AY.wav'' = Some (8000, [3])"
    by simp_all
  from hi_end_to_end [where cmu_dict = ?cmu and variants = "[]" and fl = source_flags
      and w = ?w and r = 8000 and ?s1.0 = "[1, 2]" and ?s2.0 = "[3]"] c f a
  show ?thesis by simp
qed

end
